theory Spec2Isabelle
  imports Main "HOL-Library.Word"
begin

unbundle bit_operations_syntax

section \<open>The mutex, its two words and the kernel interface\<close>

text \<open>
  The source is \<^verbatim>\<open>src/futex_mutex.cc\<close>. A C \<^verbatim>\<open>int\<close> is a 32-bit word: \<open>+\<close> and \<open>-\<close>
  wrap around as the \<^verbatim>\<open>__sync\<close> builtins do, \<open>sint\<close> reads the signed value, and
  \<open><s\<close> is the signed comparison of C. The two plain C expressions \<^verbatim>\<open>old_c+1\<close> and
  \<^verbatim>\<open>old_c-1\<close> are only evaluated for an even \<^verbatim>\<open>old_c\<close>; the first can then not
  overflow, the second overflows at \<^verbatim>\<open>INT_MIN\<close> only, where the model wraps.
\<close>

type_synonym cint = "32 word"

text \<open>The result of a system call (a C \<^verbatim>\<open>long\<close>); no operation ever inspects it.\<close>

type_synonym kret = int

text \<open>
  Modelled from the spec: the type \<^verbatim>\<open>futex_mutex_t\<close> is declared in \<^verbatim>\<open>futex_mutex.h\<close>,
  which is not among the sources. The source reads and writes the two fields
  \<^verbatim>\<open>m->lock\<close> and \<^verbatim>\<open>m->wait\<close> and passes their addresses as \<^verbatim>\<open>volatile int *\<close>; the
  specification describes both as signed integers that start at zero.
\<close>

record futex_mutex_t =
  lock :: cint
  wait :: cint

definition zero_mutex :: futex_mutex_t where
  "zero_mutex = \<lparr>lock = 0, wait = 0\<rparr>"

text \<open>The two addresses handed to the kernel: \<^verbatim>\<open>&m->lock\<close> and \<^verbatim>\<open>&m->wait\<close>.\<close>

datatype addr = LockAddr | WaitAddr

text \<open>
  What one step of a thread does to the world outside its local variables: the pause hint,
  a store to a field of the mutex (also the store half of a compare-and-swap or of a
  fetch-and-add), and the two futex system calls with their arguments.
\<close>

datatype event =
    Pause
  | Store addr cint
  | FutexWait addr cint
  | FutexWake addr int

definition INT_MAX :: int where
  "INT_MAX = 2147483647"

text \<open>Lines 21 to 29: the three wrappers around \<^verbatim>\<open>sys_futex\<close>.\<close>

definition futex_wait :: "addr \<Rightarrow> cint \<Rightarrow> event" where
  "futex_wait a val = FutexWait a val"

definition futex_wake1 :: "addr \<Rightarrow> event" where
  "futex_wake1 a = FutexWake a 1"

definition futex_wakeN :: "addr \<Rightarrow> event" where
  "futex_wakeN a = FutexWake a INT_MAX"

text \<open>Lines 31 and 32.\<close>

definition lock_spin_count :: cint where
  "lock_spin_count = 20"

definition unlock_spin_count :: cint where
  "unlock_spin_count = 20"

fun apply_event :: "event \<Rightarrow> futex_mutex_t \<Rightarrow> futex_mutex_t" where
  "apply_event (Store LockAddr v) m = m\<lparr>lock := v\<rparr>"
| "apply_event (Store WaitAddr v) m = m\<lparr>wait := v\<rparr>"
| "apply_event Pause m = m"
| "apply_event (FutexWait a v) m = m"
| "apply_event (FutexWake a n) m = m"

fun apply_events :: "event list \<Rightarrow> futex_mutex_t \<Rightarrow> futex_mutex_t" where
  "apply_events [] m = m"
| "apply_events (e # es) m = apply_events es (apply_event e m)"

section \<open>The four operations as sequential programs over program points\<close>

text \<open>
  A program point stands before one access to the shared mutex or one system call. One
  step performs that access atomically together with the local computation up to the
  next program point. \<open>Idle\<close> is a thread outside the four operations; the points ending
  in \<open>Ret\<close> are an operation that has reached its \<^verbatim>\<open>return\<close>.

  \<^item> \<open>LRead\<close>, line 38; \<open>LCas1\<close>, line 43; \<open>LAdd\<close>, line 51; \<open>LSlow\<close>, line 54;
    \<open>LFutex\<close>, line 56; \<open>LCas2\<close>, line 58.
  \<^item> \<open>UDec\<close>, line 69; \<open>UWake1\<close>, line 72; \<open>UTestWait\<close>, line 75; \<open>UClear\<close>, line 76;
    \<open>UWakeN\<close>, line 77.
  \<^item> \<open>SRead\<close>, line 83.
  \<^item> \<open>WCheck\<close>, line 90; \<open>WSet\<close>, line 94; \<open>WFutex\<close>, line 95.
\<close>

datatype pc =
    Idle
  | LRead | LCas1 | LAdd | LSlow | LFutex | LCas2 | LRet
  | UDec | UWake1 | UTestWait | UClear | UWakeN | URet
  | SRead | SRet
  | WCheck | WSet | WFutex | WRet

text \<open>
  The local variables of the operations: \<^verbatim>\<open>count\<close>, \<^verbatim>\<open>old_c\<close> and \<^verbatim>\<open>did_futex\<close> as in
  the source, \<open>wait_i\<close> for the \<^verbatim>\<open>i\<close> of the loop in \<^verbatim>\<open>futex_mutex_wait\<close>, and \<open>ret\<close>
  for the returned value.
\<close>

record locals =
  pc :: pc
  count :: cint
  old_c :: cint
  did_futex :: cint
  wait_i :: cint
  ret :: cint

text \<open>Line 37, the test of \<^verbatim>\<open>while (count < lock_spin_count)\<close>.\<close>

definition lock_loop_head :: "locals \<Rightarrow> locals" where
  "lock_loop_head l =
     (if count l <s lock_spin_count then l\<lparr>pc := LRead\<rparr> else l\<lparr>pc := LAdd\<rparr>)"

text \<open>Line 89, the test of \<^verbatim>\<open>for (...; i < lock_spin_count; ...)\<close>.\<close>

definition wait_loop_head :: "locals \<Rightarrow> locals" where
  "wait_loop_head l =
     (if wait_i l <s lock_spin_count then l\<lparr>pc := WCheck\<rparr> else l\<lparr>pc := WSet\<rparr>)"

text \<open>Entering an operation: the initialisers of lines 36, 87 and 89.\<close>

definition enter_lock :: "locals \<Rightarrow> locals" where
  "enter_lock l = lock_loop_head (l\<lparr>count := 0\<rparr>)"

definition enter_unlock :: "locals \<Rightarrow> locals" where
  "enter_unlock l = l\<lparr>pc := UDec\<rparr>"

definition enter_subscribe :: "locals \<Rightarrow> locals" where
  "enter_subscribe l = l\<lparr>pc := SRead\<rparr>"

definition enter_wait :: "locals \<Rightarrow> locals" where
  "enter_wait l = wait_loop_head (l\<lparr>did_futex := 0, wait_i := 0\<rparr>)"

text \<open>
  One step of \<^verbatim>\<open>futex_mutex_lock\<close> (lines 35 to 66) by a thread that sees the mutex \<open>m\<close>;
  \<open>r\<close> is what the kernel returns if the step is a system call. The result is the new
  local state and the events of the step. A compare-and-swap is one step: the comparison
  with \<open>lock m\<close> and the store happen together.
\<close>

definition futex_mutex_lock_step :: "futex_mutex_t \<Rightarrow> kret \<Rightarrow> locals \<Rightarrow> locals \<times> event list" where
  "futex_mutex_lock_step m r l =
    (case pc l of
       LRead \<Rightarrow>
         (let l1 = l\<lparr>old_c := lock m\<rparr> in
          if old_c l1 AND 1 = 1
          then (lock_loop_head (l1\<lparr>count := count l1 + 1\<rparr>), [Pause])
          else (l1\<lparr>pc := LCas1\<rparr>, []))
     | LCas1 \<Rightarrow>
         (if lock m = old_c l
          then (l\<lparr>pc := LRet, ret := 0\<rparr>, [Store LockAddr (old_c l + 1)])
          else (lock_loop_head l, []))
     | LAdd \<Rightarrow> (l\<lparr>pc := LSlow, did_futex := 0\<rparr>, [Store LockAddr (lock m + 2)])
     | LSlow \<Rightarrow>
         (let l1 = l\<lparr>old_c := lock m\<rparr> in
          if old_c l1 AND 1 = 1 then (l1\<lparr>pc := LFutex\<rparr>, []) else (l1\<lparr>pc := LCas2\<rparr>, []))
     | LFutex \<Rightarrow> (l\<lparr>pc := LSlow, did_futex := 1\<rparr>, [futex_wait LockAddr (old_c l)])
     | LCas2 \<Rightarrow>
         (if lock m = old_c l
          then (l\<lparr>pc := LRet, ret := did_futex l\<rparr>, [Store LockAddr (old_c l - 1)])
          else (l\<lparr>pc := LSlow\<rparr>, []))
     | _ \<Rightarrow> (l, []))"

text \<open>
  One step of \<^verbatim>\<open>futex_mutex_unlock\<close> (lines 68 to 80). \<^verbatim>\<open>__sync_fetch_and_add\<close> returns
  the value the word had before the addition, which the source keeps in \<^verbatim>\<open>old_c\<close>.
\<close>

definition futex_mutex_unlock_step :: "futex_mutex_t \<Rightarrow> kret \<Rightarrow> locals \<Rightarrow> locals \<times> event list" where
  "futex_mutex_unlock_step m r l =
    (case pc l of
       UDec \<Rightarrow>
         (let l1 = l\<lparr>old_c := lock m\<rparr> in
          (if old_c l1 \<noteq> 0 then l1\<lparr>pc := UWake1\<rparr> else l1\<lparr>pc := UTestWait\<rparr>,
           [Store LockAddr (lock m + (- 1))]))
     | UWake1 \<Rightarrow> (l\<lparr>pc := URet\<rparr>, [futex_wake1 LockAddr])
     | UTestWait \<Rightarrow> (if wait m \<noteq> 0 then l\<lparr>pc := UClear\<rparr> else l\<lparr>pc := URet\<rparr>, [])
     | UClear \<Rightarrow> (l\<lparr>pc := UWakeN\<rparr>, [Store WaitAddr 0])
     | UWakeN \<Rightarrow> (l\<lparr>pc := URet\<rparr>, [futex_wakeN WaitAddr])
     | _ \<Rightarrow> (l, []))"

text \<open>The one step of \<^verbatim>\<open>futex_mutex_subscribe\<close> (lines 82 to 84).\<close>

definition futex_mutex_subscribe_step :: "futex_mutex_t \<Rightarrow> locals \<Rightarrow> locals \<times> event list" where
  "futex_mutex_subscribe_step m l =
    (case pc l of
       SRead \<Rightarrow> (l\<lparr>pc := SRet, ret := lock m AND 1\<rparr>, [])
     | _ \<Rightarrow> (l, []))"

text \<open>One step of \<^verbatim>\<open>futex_mutex_wait\<close> (lines 86 to 98).\<close>

definition futex_mutex_wait_step :: "futex_mutex_t \<Rightarrow> kret \<Rightarrow> locals \<Rightarrow> locals \<times> event list" where
  "futex_mutex_wait_step m r l =
    (case pc l of
       WCheck \<Rightarrow>
         (if lock m = 0 then (l\<lparr>pc := WRet, ret := did_futex l\<rparr>, [])
          else (wait_loop_head (l\<lparr>wait_i := wait_i l + 1\<rparr>), [Pause]))
     | WSet \<Rightarrow> (l\<lparr>pc := WFutex\<rparr>, [Store WaitAddr 1])
     | WFutex \<Rightarrow>
         (wait_loop_head (l\<lparr>did_futex := 1, wait_i := 0\<rparr>), [futex_wait WaitAddr 1])
     | _ \<Rightarrow> (l, []))"

text \<open>
  One step of a thread, whichever operation it is in. A thread that is idle or has reached
  a \<^verbatim>\<open>return\<close> does nothing.
\<close>

definition thread_step :: "futex_mutex_t \<Rightarrow> kret \<Rightarrow> locals \<Rightarrow> locals \<times> event list" where
  "thread_step m r l =
    (if pc l \<in> {LRead, LCas1, LAdd, LSlow, LFutex, LCas2} then futex_mutex_lock_step m r l
     else if pc l \<in> {UDec, UWake1, UTestWait, UClear, UWakeN} then futex_mutex_unlock_step m r l
     else if pc l = SRead then futex_mutex_subscribe_step m l
     else if pc l \<in> {WCheck, WSet, WFutex} then futex_mutex_wait_step m r l
     else (l, []))"

text \<open>
  A thread running alone: its own stores are the only changes of the mutex. One kernel
  result is consumed per step; the run stops when they are used up.
\<close>

fun run_alone :: "kret list \<Rightarrow> futex_mutex_t \<Rightarrow> locals \<Rightarrow> futex_mutex_t \<times> locals \<times> event list" where
  "run_alone [] m l = (m, l, [])"
| "run_alone (r # rs) m l =
     (case thread_step m r l of (l1, es1) \<Rightarrow>
        (case run_alone rs (apply_events es1 m) l1 of (m2, l2, es2) \<Rightarrow> (m2, l2, es1 @ es2)))"

text \<open>
  A thread running among others: before each of its steps the other threads may have
  changed the mutex in any way, so each step is given the mutex it sees. \<open>run_pcs\<close> lists
  the program points the steps of such a run are taken at.
\<close>

fun run_env :: "(futex_mutex_t \<times> kret) list \<Rightarrow> locals \<Rightarrow> locals \<times> event list" where
  "run_env [] l = (l, [])"
| "run_env ((m, r) # envs) l =
     (case thread_step m r l of (l1, es1) \<Rightarrow>
        (case run_env envs l1 of (l2, es2) \<Rightarrow> (l2, es1 @ es2)))"

fun run_pcs :: "(futex_mutex_t \<times> kret) list \<Rightarrow> locals \<Rightarrow> pc list" where
  "run_pcs [] l = []"
| "run_pcs ((m, r) # envs) l = pc l # run_pcs envs (fst (thread_step m r l))"

text \<open>A thread outside the four operations, with its local variables at zero.\<close>

definition idle :: locals where
  "idle = \<lparr>pc = Idle, count = 0, old_c = 0, did_futex = 0, wait_i = 0, ret = 0\<rparr>"

text \<open>
  \<^verbatim>\<open>futex_mutex_unlock\<close> and \<^verbatim>\<open>futex_mutex_subscribe\<close> have no loop: alone they return
  after at most four steps and one step. The result is the mutex they leave, the events,
  and for \<^verbatim>\<open>futex_mutex_subscribe\<close> the returned value; \<open>None\<close> would be an operation that
  has not returned.
\<close>

definition futex_mutex_unlock :: "futex_mutex_t \<Rightarrow> (futex_mutex_t \<times> event list) option" where
  "futex_mutex_unlock m =
     (case run_alone [0, 0, 0, 0] m (enter_unlock idle) of
        (m', l', es) \<Rightarrow> if pc l' = URet then Some (m', es) else None)"

definition futex_mutex_subscribe :: "futex_mutex_t \<Rightarrow> (futex_mutex_t \<times> cint) option" where
  "futex_mutex_subscribe m =
     (case run_alone [0] m (enter_subscribe idle) of
        (m', l', es) \<Rightarrow> if pc l' = SRet then Some (m', ret l') else None)"

text \<open>
  \<open>n\<close> calls of \<^verbatim>\<open>futex_mutex_subscribe\<close> one after the other, as the stress test of the
  source makes them: the values they return, in order.
\<close>

fun subscribe_repeat :: "nat \<Rightarrow> futex_mutex_t \<Rightarrow> cint list option" where
  "subscribe_repeat 0 m = Some []"
| "subscribe_repeat (Suc n) m =
     (case futex_mutex_subscribe m of
        None \<Rightarrow> None
      | Some (m', v) \<Rightarrow>
          (case subscribe_repeat n m' of None \<Rightarrow> None | Some vs \<Rightarrow> Some (v # vs)))"

text \<open>
  The comment of line 13: the lock word is twice the number of threads that wait to lock,
  plus one if the mutex is locked. The number of waiting threads is the 31 bits above
  bit 0.
\<close>

definition contenders :: "cint \<Rightarrow> 31 word" where
  "contenders v = ucast (drop_bit 1 v)"

section \<open>Threads interleaving on one mutex\<close>

text \<open>
  Any number of threads share one mutex. The scheduler picks a thread for each action:
  the thread calls one of the four operations, takes one step of the operation it is in,
  or returns from it. A thread holds the mutex from its return from
  \<^verbatim>\<open>futex_mutex_lock\<close> to its next call of \<^verbatim>\<open>futex_mutex_unlock\<close>, and calls
  \<^verbatim>\<open>futex_mutex_unlock\<close> only while it holds the mutex. A thread blocked in the kernel is a
  thread the scheduler does not pick; it may resume at any time, as after a spurious
  wake-up.
\<close>

type_synonym tid = nat

record system =
  mtx :: futex_mutex_t
  thr :: "tid \<Rightarrow> locals"
  holds :: "tid \<Rightarrow> bool"

definition sys_init :: system where
  "sys_init = \<lparr>mtx = zero_mutex, thr = (\<lambda>t. idle), holds = (\<lambda>t. False)\<rparr>"

datatype call = CallLock | CallUnlock | CallSubscribe | CallWait

datatype action = Call tid call | Step tid kret | Return tid

fun sys_step :: "action \<Rightarrow> system \<Rightarrow> system option" where
  "sys_step (Call t c) s =
     (if pc (thr s t) \<noteq> Idle then None
      else case c of
        CallLock \<Rightarrow> Some (s\<lparr>thr := (thr s)(t := enter_lock (thr s t))\<rparr>)
      | CallUnlock \<Rightarrow>
          if holds s t
          then Some (s\<lparr>thr := (thr s)(t := enter_unlock (thr s t)),
                       holds := (holds s)(t := False)\<rparr>)
          else None
      | CallSubscribe \<Rightarrow> Some (s\<lparr>thr := (thr s)(t := enter_subscribe (thr s t))\<rparr>)
      | CallWait \<Rightarrow> Some (s\<lparr>thr := (thr s)(t := enter_wait (thr s t))\<rparr>))"
| "sys_step (Step t r) s =
     (case thread_step (mtx s) r (thr s t) of
        (l', es) \<Rightarrow> Some (s\<lparr>mtx := apply_events es (mtx s), thr := (thr s)(t := l')\<rparr>))"
| "sys_step (Return t) s =
     (if pc (thr s t) = LRet
      then Some (s\<lparr>thr := (thr s)(t := (thr s t)\<lparr>pc := Idle\<rparr>),
                   holds := (holds s)(t := True)\<rparr>)
      else if pc (thr s t) \<in> {URet, SRet, WRet}
      then Some (s\<lparr>thr := (thr s)(t := (thr s t)\<lparr>pc := Idle\<rparr>)\<rparr>)
      else None)"

fun exec :: "action list \<Rightarrow> system \<Rightarrow> system option" where
  "exec [] s = Some s"
| "exec (a # as) s = (case sys_step a s of None \<Rightarrow> None | Some s' \<Rightarrow> exec as s')"

section \<open>Invariants\<close>

text \<open>
  What holds of a thread inside \<^verbatim>\<open>futex_mutex_lock\<close>, of the program points \<open>ps\<close> its
  steps were taken at and of the events \<open>es\<close> it has made so far.
\<close>

definition lock_inv :: "locals \<Rightarrow> pc list \<Rightarrow> event list \<Rightarrow> bool" where
  "lock_inv l ps es \<longleftrightarrow>
     pc l \<in> {LRead, LCas1, LAdd, LSlow, LFutex, LCas2, LRet} \<and>
     0 \<le> sint (count l) \<and> sint (count l) \<le> 20 \<and>
     (pc l \<in> {LRead, LCas1} \<longrightarrow> sint (count l) < 20) \<and>
     (pc l = LAdd \<longrightarrow> sint (count l) = 20) \<and>
     (pc l \<in> {LCas1, LCas2} \<longrightarrow> even (old_c l)) \<and>
     (\<forall>a v. FutexWait a v \<in> set es \<longrightarrow> a = LockAddr) \<and>
     (pc l \<in> {LRead, LCas1, LAdd} \<longrightarrow> LAdd \<notin> set ps \<and> (\<forall>a v. FutexWait a v \<notin> set es)) \<and>
     (pc l \<in> {LSlow, LFutex, LCas2} \<longrightarrow> count_list ps LAdd = 1 \<and>
        (did_futex l = 0 \<and> (\<forall>a v. FutexWait a v \<notin> set es) \<or>
         did_futex l = 1 \<and> (\<exists>v. FutexWait LockAddr v \<in> set es))) \<and>
     (pc l = LRet \<longrightarrow>
        (LAdd \<notin> set ps \<and> ret l = 0 \<and> (\<forall>a v. FutexWait a v \<notin> set es)) \<or>
        (count_list ps LAdd = 1 \<and>
          (ret l = 0 \<and> (\<forall>a v. FutexWait a v \<notin> set es) \<or>
           ret l = 1 \<and> (\<exists>v. FutexWait LockAddr v \<in> set es))))"

text \<open>
  A list of events in which every kernel wait on the \<^verbatim>\<open>wait\<close> address comes right after
  a store of 1 to \<^verbatim>\<open>wait\<close>, and what holds of a thread inside \<^verbatim>\<open>futex_mutex_wait\<close>.
\<close>

definition preceded :: "event list \<Rightarrow> bool" where
  "preceded es \<longleftrightarrow>
     (\<forall>pre post. es = pre @ FutexWait WaitAddr 1 # post \<longrightarrow> (\<exists>pre'. pre = pre' @ [Store WaitAddr 1]))"

definition wait_inv :: "locals \<Rightarrow> pc list \<Rightarrow> event list \<Rightarrow> bool" where
  "wait_inv l ps es \<longleftrightarrow>
     pc l \<in> {WCheck, WSet, WFutex, WRet} \<and>
     set es \<subseteq> {Pause, Store WaitAddr 1, FutexWait WaitAddr 1} \<and>
     preceded es \<and>
     (pc l = WFutex \<longrightarrow> (\<exists>pre'. es = pre' @ [Store WaitAddr 1])) \<and>
     (pc l \<in> {WCheck, WSet, WFutex} \<longrightarrow>
        did_futex l = 0 \<and> FutexWait WaitAddr 1 \<notin> set es \<or>
        did_futex l = 1 \<and> FutexWait WaitAddr 1 \<in> set es) \<and>
     (pc l = WRet \<longrightarrow>
        ret l = 0 \<and> FutexWait WaitAddr 1 \<notin> set es \<or>
        ret l = 1 \<and> FutexWait WaitAddr 1 \<in> set es)"

text \<open>
  The owner of the mutex is the thread that holds it, or has won the compare-and-swap
  and not yet returned, or has called \<^verbatim>\<open>futex_mutex_unlock\<close> and not yet subtracted.
  Bit 0 of \<^verbatim>\<open>lock\<close> is set exactly when there is an owner, and there is at most one.
\<close>

definition owner :: "system \<Rightarrow> tid \<Rightarrow> bool" where
  "owner s t \<longleftrightarrow> holds s t \<or> pc (thr s t) = LRet \<or> pc (thr s t) = UDec"

definition sys_inv :: "system \<Rightarrow> bool" where
  "sys_inv s \<longleftrightarrow>
     (odd (lock (mtx s)) \<longleftrightarrow> (\<exists>t. owner s t)) \<and>
     (\<forall>t t'. owner s t \<longrightarrow> owner s t' \<longrightarrow> t = t') \<and>
     (\<forall>t. pc (thr s t) \<in> {LCas1, LCas2} \<longrightarrow> even (old_c (thr s t))) \<and>
     (\<forall>t. pc (thr s t) = UDec \<longrightarrow> \<not> holds s t)"

section \<open>Facts about the words\<close>

lemmas step_defs = thread_step_def futex_mutex_lock_step_def futex_mutex_unlock_step_def
  futex_mutex_subscribe_step_def futex_mutex_wait_step_def

lemma bit0_odd: "(v::cint) AND 1 = 1 \<longleftrightarrow> odd v"
  by (simp add: and_one_eq mod_2_eq_odd)

lemma bit0_even: "(v::cint) AND 1 = 0 \<longleftrightarrow> even v"
  by (simp add: and_one_eq mod_2_eq_odd)

lemma odd_dec_xor: "odd (v::cint) \<Longrightarrow> v - 1 = v XOR 1"
  by (simp add: xor_one_eq)

lemma even_inc_xor: "even (v::cint) \<Longrightarrow> v + 1 = v XOR 1"
  by (simp add: xor_one_eq)

lemma odd_dec_drop: "odd (v::cint) \<Longrightarrow> drop_bit 1 (v - 1) = drop_bit 1 v"
  by (simp add: odd_dec_xor)

lemma even_inc_drop: "even (v::cint) \<Longrightarrow> drop_bit 1 (v + 1) = drop_bit 1 v"
  by (simp add: even_inc_xor)

lemma half_mod: "((x::int) mod (2 * m)) div 2 = (x div 2) mod m" if "0 \<le> m"
  using that by (simp add: zmod_zmult2_eq)

lemma even_uint: "even (uint (v::cint)) \<longleftrightarrow> even v"
  using bit_uint_iff [of v 0] by (simp add: bit_0)

lemma uint_contenders: "uint (contenders v) = uint v div 2"
proof -
  have "uint v < 2 ^ 32" using uint_lt2p [of v] by simp
  then have "uint v div 2 < 2 ^ 31" by simp
  moreover have "0 \<le> uint v div 2" by simp
  ultimately have "uint v div 2 mod 2 ^ 31 = uint v div 2" by simp
  then show ?thesis
    by (simp add: contenders_def unsigned_ucast_eq unsigned_drop_bit_eq drop_bit_eq_div
        take_bit_eq_mod uint_div_distrib)
qed

lemma contenders_add2: "contenders (v + 2) = contenders v + 1"
proof -
  have "uint (v + 2) div 2 = ((uint v + 2) mod (2 * 2 ^ 31)) div 2"
    by (simp add: uint_word_ariths)
  also have "\<dots> = ((uint v + 2) div 2) mod 2 ^ 31"
    by (rule half_mod) simp
  also have "(uint v + 2) div 2 = uint v div 2 + 1" by presburger
  finally show ?thesis
    by (simp add: word_uint_eq_iff uint_contenders uint_word_ariths)
qed

lemma contenders_even_dec: "even v \<Longrightarrow> contenders (v - 1) = contenders v - 1"
proof -
  assume "even v"
  then have eu: "even (uint v)" by (simp add: even_uint)
  have "uint (v - 1) div 2 = ((uint v - 1) mod (2 * 2 ^ 31)) div 2"
    by (simp add: uint_word_ariths)
  also have "\<dots> = ((uint v - 1) div 2) mod 2 ^ 31"
    by (rule half_mod) simp
  also have "(uint v - 1) div 2 = uint v div 2 - 1" using eu by presburger
  finally show ?thesis
    by (simp add: word_uint_eq_iff uint_contenders uint_word_ariths)
qed

lemma contenders_even_inc: "even v \<Longrightarrow> contenders (v + 1) = contenders v"
  by (simp only: contenders_def even_inc_drop)

lemma contenders_odd_dec: "odd v \<Longrightarrow> contenders (v - 1) = contenders v"
proof -
  assume "odd v"
  then have "drop_bit 1 (v - 1) = drop_bit 1 v" by (rule odd_dec_drop)
  then show ?thesis by (simp only: contenders_def)
qed

section \<open>Release and Subscribe, run alone\<close>

text \<open>What \<^verbatim>\<open>futex_mutex_unlock\<close> does, by the value of \<^verbatim>\<open>lock\<close> it finds.\<close>

lemma unlock_closed:
  "futex_mutex_unlock m = Some
     (if lock m \<noteq> 0
      then (m\<lparr>lock := lock m - 1\<rparr>, [Store LockAddr (lock m - 1), futex_wake1 LockAddr])
      else if wait m \<noteq> 0
      then (m\<lparr>lock := - 1, wait := 0\<rparr>,
            [Store LockAddr (- 1), Store WaitAddr 0, futex_wakeN WaitAddr])
      else (m\<lparr>lock := - 1\<rparr>, [Store LockAddr (- 1)]))"
  by (simp add: futex_mutex_unlock_def enter_unlock_def idle_def step_defs Let_def
      futex_wake1_def futex_wakeN_def)

lemma subscribe_closed: "futex_mutex_subscribe m = Some (m, lock m AND 1)"
  by (simp add: futex_mutex_subscribe_def enter_subscribe_def idle_def step_defs)

lemma subscribe_repeat_zero: "lock m = 0 \<Longrightarrow> subscribe_repeat n m = Some (replicate n 0)"
  by (induction n) (simp_all add: subscribe_closed)

text \<open>
  C2. The claim: Release wakes one thread on the \<^verbatim>\<open>lock\<close> address when the value captured
  by the fetch-and-add was not 1, and when it was 1 it clears \<^verbatim>\<open>wait\<close> and wakes all
  threads on the \<^verbatim>\<open>wait\<close> address. The code compares the captured value with 0, not with
  1: on a mutex that is held with no contender (\<^verbatim>\<open>lock\<close> is 1) and has a waiter registered
  (\<^verbatim>\<open>wait\<close> is 1), it stores 0 to \<^verbatim>\<open>lock\<close>, wakes one thread on the \<^verbatim>\<open>lock\<close> address, leaves
  \<^verbatim>\<open>wait\<close> at 1 and wakes nobody on the \<^verbatim>\<open>wait\<close> address.
\<close>

theorem unlock_uncontended_leaves_waiters:
  "futex_mutex_unlock \<lparr>lock = 1, wait = 1\<rparr> =
     Some (\<lparr>lock = 0, wait = 1\<rparr>, [Store LockAddr 0, FutexWake LockAddr 1])"
  by (simp add: unlock_closed futex_wake1_def)

text \<open>
  C5. For every value of \<^verbatim>\<open>lock\<close> with bit 0 set, Release returns, having stored that value
  minus 1 to \<^verbatim>\<open>lock\<close> in one step; the new value has bit 0 clear, the same bits above bit 0
  and so the same number of registered contenders.
\<close>

theorem unlock_clears_held_bit:
  assumes "lock m AND 1 = 1"
  shows "futex_mutex_unlock m =
       Some (m\<lparr>lock := lock m - 1\<rparr>, [Store LockAddr (lock m - 1), futex_wake1 LockAddr])
     \<and> (lock m - 1) AND 1 = 0
     \<and> drop_bit 1 (lock m - 1) = drop_bit 1 (lock m)
     \<and> contenders (lock m - 1) = contenders (lock m)"
proof -
  from assms have o: "odd (lock m)" by (simp add: bit0_odd)
  then have nz: "lock m \<noteq> 0" by auto
  have "even (lock m - 1)" using o by simp
  then have b: "(lock m - 1) AND 1 = 0" by (simp only: bit0_even)
  have u: "futex_mutex_unlock m =
       Some (m\<lparr>lock := lock m - 1\<rparr>, [Store LockAddr (lock m - 1), futex_wake1 LockAddr])"
    using nz by (simp add: unlock_closed)
  show ?thesis using u b odd_dec_drop [OF o] contenders_odd_dec [OF o] by blast
qed

theorem unlock_clears_held_bit_witness:
  "futex_mutex_unlock \<lparr>lock = 5, wait = 0\<rparr> =
     Some (\<lparr>lock = 4, wait = 0\<rparr>, [Store LockAddr 4, FutexWake LockAddr 1])
   \<and> contenders 4 = contenders 5"
  using unlock_clears_held_bit [of "\<lparr>lock = 5, wait = 0\<rparr>"] by (simp add: futex_wake1_def)

text \<open>
  C8. Subscribe returns bit 0 of the \<^verbatim>\<open>lock\<close> it reads and leaves the mutex as it was; its
  one step, taken among other threads, has no event, so it stores to no field. Hence any
  number of Subscribe calls on a zero-initialised mutex all return 0.
\<close>

theorem subscribe_reads_bit0:
  "futex_mutex_subscribe m = Some (m, lock m AND 1)
   \<and> thread_step m r (enter_subscribe l) =
       ((enter_subscribe l)\<lparr>pc := SRet, ret := lock m AND 1\<rparr>, [])
   \<and> subscribe_repeat n zero_mutex = Some (replicate n 0)"
  by (simp add: subscribe_closed subscribe_repeat_zero zero_mutex_def enter_subscribe_def
      step_defs)

theorem subscribe_reads_bit0_witness:
  "futex_mutex_subscribe \<lparr>lock = 5, wait = 0\<rparr> = Some (\<lparr>lock = 5, wait = 0\<rparr>, 1)
   \<and> subscribe_repeat 3 zero_mutex = Some [0, 0, 0]"
  using subscribe_reads_bit0 [of "\<lparr>lock = 5, wait = 0\<rparr>" 0 idle 3]
  by (simp add: numeral_3_eq_3)

text \<open>
  C10. Release on a mutex whose \<^verbatim>\<open>lock\<close> is 0 returns, leaving \<^verbatim>\<open>lock\<close> at -1; it takes the
  branch of the \<^verbatim>\<open>wait\<close> word: a nonzero \<^verbatim>\<open>wait\<close> is set to 0 and all threads on the \<^verbatim>\<open>wait\<close>
  address are woken; there is no wake on the \<^verbatim>\<open>lock\<close> address.
\<close>

theorem unlock_of_free_mutex:
  assumes "lock m = 0"
  shows "futex_mutex_unlock m =
       Some (m\<lparr>lock := - 1, wait := 0\<rparr>,
             Store LockAddr (- 1) #
               (if wait m \<noteq> 0 then [Store WaitAddr 0, futex_wakeN WaitAddr] else []))
     \<and> sint (- 1 :: cint) = - 1
     \<and> (\<forall>m' es n. futex_mutex_unlock m = Some (m', es) \<longrightarrow> FutexWake LockAddr n \<notin> set es)"
  using assms by (simp add: unlock_closed futex_wakeN_def)

theorem unlock_of_free_mutex_witness:
  "futex_mutex_unlock \<lparr>lock = 0, wait = 1\<rparr> =
     Some (\<lparr>lock = - 1, wait = 0\<rparr>,
           [Store LockAddr (- 1), Store WaitAddr 0, FutexWake WaitAddr 2147483647])"
  using unlock_of_free_mutex [of "\<lparr>lock = 0, wait = 1\<rparr>"]
  by (simp add: futex_wakeN_def INT_MAX_def)

section \<open>Runs of one thread among others\<close>

lemma run_env_inv:
  assumes "P l ps es"
    and "\<And>m r l ps es l' es'. P l ps es \<Longrightarrow> thread_step m r l = (l', es') \<Longrightarrow> P l' (ps @ [pc l]) (es @ es')"
  shows "P (fst (run_env envs l)) (ps @ run_pcs envs l) (es @ snd (run_env envs l))"
  using assms(1)
proof (induction envs arbitrary: l ps es)
  case Nil
  then show ?case by simp
next
  case (Cons e envs)
  obtain m r where e: "e = (m, r)" by (cases e)
  obtain l1 es1 where st: "thread_step m r l = (l1, es1)" by force
  have "P l1 (ps @ [pc l]) (es @ es1)" using Cons.prems st by (rule assms(2))
  from Cons.IH [OF this] show ?case by (auto simp add: e st split: prod.splits)
qed

lemma sint_inc: "0 \<le> sint c \<Longrightarrow> sint c < 20 \<Longrightarrow> sint (c + 1 :: cint) = sint c + 1"
  by (simp add: sint_word_ariths signed_take_bit_int_eq_self)

lemma sless_spin: "c <s lock_spin_count \<longleftrightarrow> sint c < 20"
  by (simp add: word_sless_alt lock_spin_count_def)

lemma lock_inv_enter: "lock_inv (enter_lock l0) [] []"
  by (simp add: lock_inv_def enter_lock_def lock_loop_head_def sless_spin)

lemma lock_inv_step:
  assumes "lock_inv l ps es" and "thread_step m r l = (l', es')"
  shows "lock_inv l' (ps @ [pc l]) (es @ es')"
proof -
  from assms(1) have "pc l \<in> {LRead, LCas1, LAdd, LSlow, LFutex, LCas2, LRet}"
    by (simp add: lock_inv_def)
  then consider "pc l = LRead" | "pc l = LCas1" | "pc l = LAdd" | "pc l = LSlow"
    | "pc l = LFutex" | "pc l = LCas2" | "pc l = LRet" by auto
  then show ?thesis
  proof cases
    case 1
    with assms show ?thesis
      by (auto simp add: lock_inv_def step_defs lock_loop_head_def Let_def sless_spin bit0_odd
          sint_inc split: if_splits)
  next
    case 2
    with assms show ?thesis
      by (auto simp add: lock_inv_def step_defs lock_loop_head_def sless_spin split: if_splits)
  next
    case 3
    with assms show ?thesis
      by (auto simp add: lock_inv_def step_defs)
  next
    case 4
    with assms show ?thesis
      by (auto simp add: lock_inv_def step_defs Let_def bit0_odd split: if_splits)
  next
    case 5
    with assms show ?thesis
      by (auto simp add: lock_inv_def step_defs futex_wait_def)
  next
    case 6
    with assms show ?thesis
      by (auto simp add: lock_inv_def step_defs split: if_splits)
  next
    case 7
    with assms show ?thesis
      by (auto simp add: lock_inv_def step_defs)
  qed
qed

lemma lock_run_inv:
  "lock_inv (fst (run_env envs (enter_lock l0))) (run_pcs envs (enter_lock l0))
     (snd (run_env envs (enter_lock l0)))"
  using run_env_inv [where P = lock_inv and l = "enter_lock l0" and ps = "[]" and es = "[]"
      and envs = envs, OF lock_inv_enter lock_inv_step] by simp

lemma run_env_kret:
  "map fst envs = map fst envs' \<Longrightarrow> run_env envs l = run_env envs' l"
proof (induction envs arbitrary: envs' l)
  case Nil
  then show ?case by simp
next
  case (Cons e envs)
  then obtain e' envs0 where e': "envs' = e' # envs0" by (cases envs') auto
  obtain m r where e: "e = (m, r)" by (cases e)
  obtain m' r' where ee: "e' = (m', r')" by (cases e')
  from Cons.prems have mm: "m' = m" and tl: "map fst envs = map fst envs0" by (simp_all add: e e' ee)
  have st: "thread_step m r' l = thread_step m r l" by (simp add: step_defs)
  show ?case using Cons.IH [OF tl] by (simp add: e e' ee mm st)
qed

lemmas run_defs = enter_lock_def enter_wait_def idle_def zero_mutex_def step_defs
  lock_loop_head_def wait_loop_head_def sless_spin Let_def futex_wait_def

lemma lock_reach_inv:
  assumes "run_env envs (enter_lock l0) = (l, es)"
  shows "lock_inv l (run_pcs envs (enter_lock l0)) es"
  using lock_run_inv [of envs l0] by (simp add: assms)

text \<open>
  C4. Whenever Acquire returns, in any run among other threads, the flag it returns is 0
  or 1; it is 0 exactly when the run made no kernel wait at all, and 1 exactly when it
  made a kernel wait on the \<^verbatim>\<open>lock\<close> address (all events of the run precede the return,
  so the wait precedes the acquiring compare-and-swap). A run that never reached the
  registration of line 51, that is a success of the fast spin phase, returns 0.
\<close>

theorem lock_flag_iff_futex_wait:
  assumes run: "run_env envs (enter_lock l0) = (l, es)" and ret: "pc l = LRet"
  shows "(ret l = 0 \<or> ret l = 1)
     \<and> (ret l = 0 \<longleftrightarrow> (\<forall>a v. FutexWait a v \<notin> set es))
     \<and> (ret l = 1 \<longleftrightarrow> (\<exists>v. FutexWait LockAddr v \<in> set es))
     \<and> (LAdd \<notin> set (run_pcs envs (enter_lock l0)) \<longrightarrow> ret l = 0)"
proof -
  have "lock_inv l (run_pcs envs (enter_lock l0)) es"
    using lock_run_inv [of envs l0] by (simp add: run)
  then show ?thesis using ret unfolding lock_inv_def by auto
qed

theorem lock_flag_iff_futex_wait_witness:
  "run_env [(zero_mutex, 0), (zero_mutex, 0)] (enter_lock idle) =
     (\<lparr>pc = LRet, count = 0, old_c = 0, did_futex = 0, wait_i = 0, ret = 0\<rparr>, [Store LockAddr 1])
   \<and> ret (fst (run_env (replicate 20 (\<lparr>lock = 1, wait = 0\<rparr>, 0) @
          [(\<lparr>lock = 1, wait = 0\<rparr>, 0), (\<lparr>lock = 3, wait = 0\<rparr>, 0), (\<lparr>lock = 3, wait = 0\<rparr>, 0),
           (\<lparr>lock = 2, wait = 0\<rparr>, 0), (\<lparr>lock = 2, wait = 0\<rparr>, 0)]) (enter_lock idle))) = 1"
proof -
  let ?e1 = "[(zero_mutex, 0), (zero_mutex, 0)]"
  let ?l1 = "\<lparr>pc = LRet, count = 0, old_c = 0, did_futex = 0, wait_i = 0, ret = 0\<rparr>"
  have r1: "run_env ?e1 (enter_lock idle) = (?l1, [Store LockAddr 1])"
    by (simp add: enter_lock_def idle_def zero_mutex_def step_defs lock_loop_head_def sless_spin Let_def)
  let ?e2 = "replicate 20 (\<lparr>lock = 1, wait = 0\<rparr>, 0::int) @
          [(\<lparr>lock = 1, wait = 0\<rparr>, 0), (\<lparr>lock = 3, wait = 0\<rparr>, 0), (\<lparr>lock = 3, wait = 0\<rparr>, 0),
           (\<lparr>lock = 2, wait = 0\<rparr>, 0), (\<lparr>lock = 2, wait = 0\<rparr>, 0)]"
  let ?l2 = "\<lparr>pc = LRet, count = 20, old_c = 2, did_futex = 1, wait_i = 0, ret = 1\<rparr>"
  let ?es2 = "replicate 20 Pause @ [Store LockAddr 3, FutexWait LockAddr 3, Store LockAddr 1]"
  have r2: "run_env ?e2 (enter_lock idle) = (?l2, ?es2)"
    by (simp add: enter_lock_def idle_def step_defs lock_loop_head_def sless_spin Let_def
        futex_wait_def eval_nat_numeral)
  have "ret ?l2 = 1 \<longleftrightarrow> (\<exists>v. FutexWait LockAddr v \<in> set ?es2)"
    using lock_flag_iff_futex_wait [OF r2] by simp
  then have "ret ?l2 = 1" by auto
  then show ?thesis using lock_flag_iff_futex_wait [OF r1] r1 r2 by simp
qed

text \<open>
  C6. In any state \<open>l\<close> that Acquire reaches, the spin counter is between 0 and 20. A step
  changes the counter only at the read of line 38 when bit 0 of the value read is set;
  that step adds 1 and pauses. When bit 0 is clear the step goes on to the
  compare-and-swap with the value read. A compare-and-swap that fails leaves the counter
  as it was and goes back to the read; one that succeeds found an even value, stores that
  value plus 1, which has bit 0 set and the same contender count, and returns 0.
\<close>

theorem lock_fast_spin_phase:
  assumes run: "run_env envs (enter_lock l0) = (l, es)" and st: "thread_step m r l = (l', es')"
  shows "0 \<le> sint (count l) \<and> sint (count l) \<le> 20
     \<and> (count l' \<noteq> count l \<longrightarrow> pc l = LRead \<and> lock m AND 1 = 1)
     \<and> (pc l = LRead \<and> lock m AND 1 = 1 \<longrightarrow>
          sint (count l') = sint (count l) + 1 \<and> es' = [Pause])
     \<and> (pc l = LRead \<and> lock m AND 1 \<noteq> 1 \<longrightarrow>
          count l' = count l \<and> pc l' = LCas1 \<and> old_c l' = lock m \<and> es' = [])
     \<and> (pc l = LCas1 \<and> lock m \<noteq> old_c l \<longrightarrow> count l' = count l \<and> pc l' = LRead \<and> es' = [])
     \<and> (pc l = LCas1 \<and> lock m = old_c l \<longrightarrow>
          lock m AND 1 = 0 \<and> es' = [Store LockAddr (lock m + 1)] \<and> (lock m + 1) AND 1 = 1
          \<and> contenders (lock m + 1) = contenders (lock m) \<and> pc l' = LRet \<and> ret l' = 0)"
proof -
  note inv = lock_reach_inv [OF run]
  have bounds: "0 \<le> sint (count l) \<and> sint (count l) \<le> 20"
    and blt: "pc l \<in> {LRead, LCas1} \<longrightarrow> sint (count l) < 20"
    and ev: "pc l \<in> {LCas1, LCas2} \<longrightarrow> even (old_c l)"
    using inv by (simp_all add: lock_inv_def)
  have only: "count l' \<noteq> count l \<longrightarrow> pc l = LRead \<and> lock m AND 1 = 1"
    using st
    by (cases "pc l")
      (auto simp add: step_defs lock_loop_head_def wait_loop_head_def Let_def split: if_splits)
  have pause: "pc l = LRead \<and> lock m AND 1 = 1 \<longrightarrow>
      sint (count l') = sint (count l) + 1 \<and> es' = [Pause]"
    using st bounds blt
    by (auto simp add: step_defs lock_loop_head_def Let_def sint_inc split: if_splits)
  have attempt: "pc l = LRead \<and> lock m AND 1 \<noteq> 1 \<longrightarrow>
      count l' = count l \<and> pc l' = LCas1 \<and> old_c l' = lock m \<and> es' = []"
    using st by (auto simp add: step_defs Let_def)
  have fail: "pc l = LCas1 \<and> lock m \<noteq> old_c l \<longrightarrow> count l' = count l \<and> pc l' = LRead \<and> es' = []"
    using st blt by (auto simp add: step_defs lock_loop_head_def sless_spin)
  have succ: "pc l = LCas1 \<and> lock m = old_c l \<longrightarrow>
          lock m AND 1 = 0 \<and> es' = [Store LockAddr (lock m + 1)] \<and> (lock m + 1) AND 1 = 1
          \<and> contenders (lock m + 1) = contenders (lock m) \<and> pc l' = LRet \<and> ret l' = 0"
  proof
    assume a: "pc l = LCas1 \<and> lock m = old_c l"
    with ev have e: "even (lock m)" by simp
    then have "(lock m + 1) AND 1 = 1" by (simp add: bit0_odd)
    moreover have "lock m AND 1 = 0" using e by (simp add: bit0_even)
    moreover have "es' = [Store LockAddr (lock m + 1)] \<and> pc l' = LRet \<and> ret l' = 0"
      using st a by (auto simp add: step_defs)
    ultimately show "lock m AND 1 = 0 \<and> es' = [Store LockAddr (lock m + 1)] \<and> (lock m + 1) AND 1 = 1
          \<and> contenders (lock m + 1) = contenders (lock m) \<and> pc l' = LRet \<and> ret l' = 0"
      using contenders_even_inc [OF e] by simp
  qed
  show ?thesis using bounds only pause attempt fail succ by blast
qed

theorem lock_fast_spin_phase_witness:
  "thread_step \<lparr>lock = 1, wait = 0\<rparr> 0 (enter_lock idle) =
     (\<lparr>pc = LRead, count = 1, old_c = 1, did_futex = 0, wait_i = 0, ret = 0\<rparr>, [Pause])
   \<and> sint (1 :: cint) = sint (0 :: cint) + 1
   \<and> thread_step \<lparr>lock = 0, wait = 0\<rparr> 0
       \<lparr>pc = LCas1, count = 0, old_c = 0, did_futex = 0, wait_i = 0, ret = 0\<rparr> =
     (\<lparr>pc = LRet, count = 0, old_c = 0, did_futex = 0, wait_i = 0, ret = 0\<rparr>, [Store LockAddr 1])
   \<and> contenders 1 = contenders 0
   \<and> thread_step \<lparr>lock = 1, wait = 0\<rparr> 0
       \<lparr>pc = LCas1, count = 0, old_c = 0, did_futex = 0, wait_i = 0, ret = 0\<rparr> =
     (\<lparr>pc = LRead, count = 0, old_c = 0, did_futex = 0, wait_i = 0, ret = 0\<rparr>, [])"
proof -
  let ?held = "\<lparr>lock = 1, wait = 0\<rparr>"
  let ?free = "\<lparr>lock = 0, wait = 0\<rparr>"
  let ?l0' = "\<lparr>pc = LRead, count = 1, old_c = 1, did_futex = 0, wait_i = 0, ret = 0\<rparr>"
  have r0: "run_env [] (enter_lock idle) = (enter_lock idle, [])" by simp
  have s0: "thread_step ?held 0 (enter_lock idle) = (?l0', [Pause])"
    by (simp add: run_defs)
  let ?l1 = "\<lparr>pc = LCas1, count = 0, old_c = 0, did_futex = 0, wait_i = 0, ret = 0\<rparr>"
  let ?l1' = "\<lparr>pc = LRet, count = 0, old_c = 0, did_futex = 0, wait_i = 0, ret = 0\<rparr>"
  let ?l1'' = "\<lparr>pc = LRead, count = 0, old_c = 0, did_futex = 0, wait_i = 0, ret = 0\<rparr>"
  have r1: "run_env [(?free, 0)] (enter_lock idle) = (?l1, [])"
    by (simp add: run_defs)
  have s1: "thread_step ?free 0 ?l1 = (?l1', [Store LockAddr 1])"
    by (simp add: step_defs)
  have s2: "thread_step ?held 0 ?l1 = (?l1'', [])"
    by (simp add: run_defs)
  show ?thesis
    using lock_fast_spin_phase [OF r0 s0] lock_fast_spin_phase [OF r1 s1] lock_fast_spin_phase [OF r1 s2] s0 s1 s2
    by (simp add: enter_lock_def idle_def lock_loop_head_def sless_spin)
qed

text \<open>
  C3. In any run of Acquire the step of line 51 is taken at most once, and exactly once
  before every state of the slow loop; it is taken with the spin counter at 20 and stores
  the value of \<^verbatim>\<open>lock\<close> plus 2 in one step.
  From the slow loop a step leads to the slow loop or to the return, never back to the
  fast path. The acquiring compare-and-swap of the slow loop found an even value and
  stores that value minus 1, which has bit 0 set. The contender count of \<^verbatim>\<open>lock\<close> after a
  step of Acquire is the count before, plus 1 at the registration, minus 1 at the
  successful compare-and-swap of the slow loop, and unchanged at every other step.
\<close>

theorem lock_registers_once:
  assumes run: "run_env envs (enter_lock l0) = (l, es)" and st: "thread_step m r l = (l', es')"
  shows "count_list (run_pcs envs (enter_lock l0)) LAdd \<le> 1
     \<and> (pc l \<in> {LSlow, LFutex, LCas2} \<longrightarrow> count_list (run_pcs envs (enter_lock l0)) LAdd = 1)
     \<and> (pc l = LAdd \<longrightarrow>
          sint (count l) = 20 \<and> es' = [Store LockAddr (lock m + 2)] \<and> pc l' = LSlow)
     \<and> (pc l \<in> {LSlow, LFutex, LCas2, LRet} \<longrightarrow> pc l' \<in> {LSlow, LFutex, LCas2, LRet})
     \<and> (pc l = LCas2 \<and> lock m = old_c l \<longrightarrow>
          lock m AND 1 = 0 \<and> es' = [Store LockAddr (lock m - 1)] \<and> (lock m - 1) AND 1 = 1
          \<and> pc l' = LRet)
     \<and> contenders (lock (apply_events es' m)) =
          contenders (lock m) +
            (if pc l = LAdd then 1 else if pc l = LCas2 \<and> lock m = old_c l then - 1 else 0)"
proof -
  note inv = lock_reach_inv [OF run]
  have pcs: "pc l \<in> {LRead, LCas1, LAdd, LSlow, LFutex, LCas2, LRet}"
    and ev: "pc l \<in> {LCas1, LCas2} \<longrightarrow> even (old_c l)"
    and fast: "pc l \<in> {LRead, LCas1, LAdd} \<longrightarrow> LAdd \<notin> set (run_pcs envs (enter_lock l0))"
    and slow: "pc l \<in> {LSlow, LFutex, LCas2} \<longrightarrow> count_list (run_pcs envs (enter_lock l0)) LAdd = 1"
    and retd: "pc l = LRet \<longrightarrow> LAdd \<notin> set (run_pcs envs (enter_lock l0))
        \<or> count_list (run_pcs envs (enter_lock l0)) LAdd = 1"
    and full: "pc l = LAdd \<longrightarrow> sint (count l) = 20"
    using inv by (auto simp add: lock_inv_def)
  have once: "count_list (run_pcs envs (enter_lock l0)) LAdd \<le> 1
     \<and> (pc l \<in> {LSlow, LFutex, LCas2} \<longrightarrow> count_list (run_pcs envs (enter_lock l0)) LAdd = 1)"
    using pcs fast slow retd by (auto simp add: count_list_0_iff)
  have add: "pc l = LAdd \<longrightarrow>
      sint (count l) = 20 \<and> es' = [Store LockAddr (lock m + 2)] \<and> pc l' = LSlow"
    using st full by (auto simp add: step_defs)
  have closed: "pc l \<in> {LSlow, LFutex, LCas2, LRet} \<longrightarrow> pc l' \<in> {LSlow, LFutex, LCas2, LRet}"
    using st by (auto simp add: step_defs Let_def split: if_splits)
  have acq: "pc l = LCas2 \<and> lock m = old_c l \<longrightarrow>
          lock m AND 1 = 0 \<and> es' = [Store LockAddr (lock m - 1)] \<and> (lock m - 1) AND 1 = 1
          \<and> pc l' = LRet"
  proof
    assume a: "pc l = LCas2 \<and> lock m = old_c l"
    with ev have e: "even (lock m)" by simp
    then have "(lock m - 1) AND 1 = 1" by (simp add: bit0_odd)
    moreover have "lock m AND 1 = 0" using e by (simp add: bit0_even)
    moreover have "es' = [Store LockAddr (lock m - 1)] \<and> pc l' = LRet"
      using st a by (auto simp add: step_defs)
    ultimately show "lock m AND 1 = 0 \<and> es' = [Store LockAddr (lock m - 1)] \<and> (lock m - 1) AND 1 = 1
          \<and> pc l' = LRet" by simp
  qed
  have cont: "contenders (lock (apply_events es' m)) =
          contenders (lock m) +
            (if pc l = LAdd then 1 else if pc l = LCas2 \<and> lock m = old_c l then - 1 else 0)"
  proof -
    from pcs consider "pc l = LRead" | "pc l = LCas1" | "pc l = LAdd" | "pc l = LSlow"
      | "pc l = LFutex" | "pc l = LCas2" | "pc l = LRet" by auto
    then show ?thesis
    proof cases
      case 1
      with st show ?thesis
        by (auto simp add: step_defs lock_loop_head_def Let_def split: if_splits)
    next
      case 2
      with st ev show ?thesis
        by (auto simp add: step_defs lock_loop_head_def contenders_even_inc split: if_splits)
    next
      case 3
      with st show ?thesis by (auto simp add: step_defs contenders_add2)
    next
      case 4
      with st show ?thesis by (auto simp add: step_defs Let_def split: if_splits)
    next
      case 5
      with st show ?thesis by (auto simp add: step_defs futex_wait_def)
    next
      case 6
      with st ev show ?thesis
        by (auto simp add: step_defs contenders_even_dec split: if_splits)
    next
      case 7
      with st show ?thesis by (auto simp add: step_defs)
    qed
  qed
  show ?thesis using once add closed acq cont by blast
qed

theorem lock_registers_once_witness:
  "thread_step \<lparr>lock = 1, wait = 0\<rparr> 0
       \<lparr>pc = LAdd, count = 20, old_c = 1, did_futex = 0, wait_i = 0, ret = 0\<rparr> =
     (\<lparr>pc = LSlow, count = 20, old_c = 1, did_futex = 0, wait_i = 0, ret = 0\<rparr>, [Store LockAddr 3])
   \<and> contenders 3 = contenders 1 + 1
   \<and> thread_step \<lparr>lock = 2, wait = 0\<rparr> 0
       \<lparr>pc = LCas2, count = 20, old_c = 2, did_futex = 0, wait_i = 0, ret = 0\<rparr> =
     (\<lparr>pc = LRet, count = 20, old_c = 2, did_futex = 0, wait_i = 0, ret = 0\<rparr>, [Store LockAddr 1])
   \<and> contenders 1 = contenders 2 + - 1
   \<and> count_list (run_pcs (replicate 20 (\<lparr>lock = 1, wait = 0\<rparr>, 0) @
          [(\<lparr>lock = 1, wait = 0\<rparr>, 0), (\<lparr>lock = 2, wait = 0\<rparr>, 0)]) (enter_lock idle)) LAdd = 1"
proof -
  let ?held = "\<lparr>lock = 1, wait = 0\<rparr>"
  let ?e1 = "replicate 20 (?held, 0::int)"
  let ?l1 = "\<lparr>pc = LAdd, count = 20, old_c = 1, did_futex = 0, wait_i = 0, ret = 0\<rparr>"
  let ?l1' = "\<lparr>pc = LSlow, count = 20, old_c = 1, did_futex = 0, wait_i = 0, ret = 0\<rparr>"
  have r1: "run_env ?e1 (enter_lock idle) = (?l1, replicate 20 Pause)"
    by (simp add: run_defs eval_nat_numeral)
  have s1: "thread_step ?held 0 ?l1 = (?l1', [Store LockAddr 3])"
    by (simp add: step_defs)
  let ?e2 = "?e1 @ [(?held, 0), (\<lparr>lock = 2, wait = 0\<rparr>, 0)]"
  let ?l2 = "\<lparr>pc = LCas2, count = 20, old_c = 2, did_futex = 0, wait_i = 0, ret = 0\<rparr>"
  let ?l2' = "\<lparr>pc = LRet, count = 20, old_c = 2, did_futex = 0, wait_i = 0, ret = 0\<rparr>"
  have r2: "run_env ?e2 (enter_lock idle) = (?l2, replicate 20 Pause @ [Store LockAddr 3])"
    by (simp add: run_defs eval_nat_numeral)
  have s2: "thread_step \<lparr>lock = 2, wait = 0\<rparr> 0 ?l2 = (?l2', [Store LockAddr 1])"
    by (simp add: step_defs)
  show ?thesis
    using lock_registers_once [OF r1 s1] lock_registers_once [OF r2 s2] s1 s2 by simp
qed

section \<open>Wait-for-free\<close>

lemma snoc_decomp:
  "es @ [e] = pre @ x # post \<longleftrightarrow>
     (post = [] \<and> pre = es \<and> x = e) \<or> (\<exists>post'. post = post' @ [e] \<and> es = pre @ x # post')"
  by (cases post rule: rev_cases) auto

lemma preceded_Nil: "preceded []"
  by (simp add: preceded_def)

lemma preceded_other: "preceded es \<Longrightarrow> e \<noteq> FutexWait WaitAddr 1 \<Longrightarrow> preceded (es @ [e])"
  unfolding preceded_def snoc_decomp by blast

lemma preceded_wait: "preceded (pre' @ [Store WaitAddr 1]) \<Longrightarrow>
    preceded ((pre' @ [Store WaitAddr 1]) @ [FutexWait WaitAddr 1])"
  unfolding preceded_def snoc_decomp by blast

lemma wait_inv_enter: "wait_inv (enter_wait l0) [] []"
  by (simp add: wait_inv_def enter_wait_def wait_loop_head_def sless_spin preceded_Nil)

lemma wait_inv_step:
  assumes "wait_inv l ps es" and "thread_step m r l = (l', es')"
  shows "wait_inv l' (ps @ [pc l]) (es @ es')"
proof -
  from assms(1) have "pc l \<in> {WCheck, WSet, WFutex, WRet}"
    by (simp add: wait_inv_def)
  then consider "pc l = WCheck" | "pc l = WSet" | "pc l = WFutex" | "pc l = WRet" by auto
  then show ?thesis
  proof cases
    case 1
    with assms show ?thesis
      by (auto simp add: wait_inv_def step_defs wait_loop_head_def preceded_other split: if_splits)
  next
    case 2
    with assms show ?thesis
      by (auto simp add: wait_inv_def step_defs preceded_other)
  next
    case 3
    with assms show ?thesis
      by (auto simp add: wait_inv_def step_defs wait_loop_head_def futex_wait_def sless_spin
          dest: preceded_wait)
  next
    case 4
    with assms show ?thesis
      by (auto simp add: wait_inv_def step_defs)
  qed
qed

lemma wait_run_inv:
  "wait_inv (fst (run_env envs (enter_wait l0))) (run_pcs envs (enter_wait l0))
     (snd (run_env envs (enter_wait l0)))"
  using run_env_inv [where P = wait_inv and l = "enter_wait l0" and ps = "[]" and es = "[]"
      and envs = envs, OF wait_inv_enter wait_inv_step] by simp

lemma wait_step_pcs:
  assumes "pc l \<in> {WCheck, WSet, WFutex}" and "thread_step m r l = (l', es')"
  shows "pc l' \<in> {WCheck, WSet, WFutex} \<or> (pc l' = WRet \<and> pc l = WCheck \<and> lock m = 0)"
  using assms by (auto simp add: step_defs wait_loop_head_def split: if_splits)

lemma wait_ret_observed:
  assumes "pc l \<in> {WCheck, WSet, WFutex}" and "pc (fst (run_env envs l)) = WRet"
  shows "\<exists>pre m r post. envs = pre @ (m, r) # post \<and> pc (fst (run_env pre l)) = WCheck \<and> lock m = 0"
  using assms
proof (induction envs arbitrary: l)
  case Nil
  then show ?case by auto
next
  case (Cons e envs)
  obtain m r where e: "e = (m, r)" by (cases e)
  obtain l1 es1 where st: "thread_step m r l = (l1, es1)" by force
  have fst: "fst (run_env ((m, r) # xs) l) = fst (run_env xs l1)" for xs
    by (simp add: st split: prod.splits)
  from wait_step_pcs [OF Cons.prems(1) st]
  show ?case
  proof
    assume run: "pc l1 \<in> {WCheck, WSet, WFutex}"
    from Cons.prems(2) have "pc (fst (run_env envs l1)) = WRet" unfolding e fst .
    from Cons.IH [OF run this] obtain pre m' r' post where
      "envs = pre @ (m', r') # post" "pc (fst (run_env pre l1)) = WCheck" "lock m' = 0" by blast
    then have "e # envs = ((m, r) # pre) @ (m', r') # post
        \<and> pc (fst (run_env ((m, r) # pre) l)) = WCheck \<and> lock m' = 0"
      unfolding e fst by simp
    then show ?thesis by blast
  next
    assume "pc l1 = WRet \<and> pc l = WCheck \<and> lock m = 0"
    then have "e # envs = [] @ (m, r) # envs \<and> pc (fst (run_env [] l)) = WCheck \<and> lock m = 0"
      by (simp add: e)
    then show ?thesis by blast
  qed
qed

lemma apply_events_lock:
  "\<forall>a v. Store a v \<in> set es \<longrightarrow> a = WaitAddr \<Longrightarrow> lock (apply_events es m) = lock m"
proof (induction es arbitrary: m)
  case Nil
  then show ?case by simp
next
  case (Cons e es)
  have "lock (apply_event e m) = lock m"
  proof (cases e)
    case (Store a v)
    with Cons.prems have "a = WaitAddr" by simp
    with Store show ?thesis by simp
  qed simp_all
  moreover have "lock (apply_events es (apply_event e m)) = lock (apply_event e m)"
    using Cons.prems by (intro Cons.IH) auto
  ultimately show ?case by simp
qed

text \<open>
  C7. In any run of WaitForFree among other threads: if it has returned, then some step
  of the run was the check of line 90 and saw \<^verbatim>\<open>lock\<close> equal to 0; the value returned is
  0 or 1, and 1 exactly when the run made a kernel wait; every kernel wait of the run is
  on the \<^verbatim>\<open>wait\<close> address with expected value 1 and comes right after a store of 1 to
  \<^verbatim>\<open>wait\<close>; every store of the run is a store of 1 to \<^verbatim>\<open>wait\<close>, so the events of the run
  leave \<^verbatim>\<open>lock\<close> as it was.
\<close>

theorem wait_returns_when_free:
  assumes run: "run_env envs (enter_wait l0) = (l, es)"
  shows "(pc l = WRet \<longrightarrow>
        (\<exists>pre m r post. envs = pre @ (m, r) # post
           \<and> pc (fst (run_env pre (enter_wait l0))) = WCheck \<and> lock m = 0))
     \<and> (pc l = WRet \<longrightarrow> (ret l = 0 \<or> ret l = 1) \<and> (ret l = 1 \<longleftrightarrow> FutexWait WaitAddr 1 \<in> set es))
     \<and> (\<forall>a v. FutexWait a v \<in> set es \<longrightarrow> a = WaitAddr \<and> v = 1)
     \<and> (\<forall>pre post. es = pre @ FutexWait WaitAddr 1 # post \<longrightarrow>
          (\<exists>pre'. pre = pre' @ [Store WaitAddr 1]))
     \<and> (\<forall>a v. Store a v \<in> set es \<longrightarrow> a = WaitAddr \<and> v = 1)
     \<and> (\<forall>m. lock (apply_events es m) = lock m)"
proof -
  have inv: "wait_inv l (run_pcs envs (enter_wait l0)) es"
    using wait_run_inv [of envs l0] by (simp add: run)
  have entry: "pc (enter_wait l0) \<in> {WCheck, WSet, WFutex}"
    by (simp add: enter_wait_def wait_loop_head_def)
  have obs: "pc l = WRet \<longrightarrow>
        (\<exists>pre m r post. envs = pre @ (m, r) # post
           \<and> pc (fst (run_env pre (enter_wait l0))) = WCheck \<and> lock m = 0)"
    using wait_ret_observed [OF entry, of envs] by (simp add: run)
  from inv have sub: "set es \<subseteq> {Pause, Store WaitAddr 1, FutexWait WaitAddr 1}"
    and pre: "preceded es"
    and flag: "pc l = WRet \<longrightarrow>
        ret l = 0 \<and> FutexWait WaitAddr 1 \<notin> set es \<or>
        ret l = 1 \<and> FutexWait WaitAddr 1 \<in> set es"
    by (simp_all add: wait_inv_def)
  have waits: "\<forall>a v. FutexWait a v \<in> set es \<longrightarrow> a = WaitAddr \<and> v = 1"
    and stores: "\<forall>a v. Store a v \<in> set es \<longrightarrow> a = WaitAddr \<and> v = 1"
    using sub by auto
  have frame: "\<forall>m. lock (apply_events es m) = lock m"
    using stores by (simp add: apply_events_lock)
  have fl: "pc l = WRet \<longrightarrow> (ret l = 0 \<or> ret l = 1) \<and> (ret l = 1 \<longleftrightarrow> FutexWait WaitAddr 1 \<in> set es)"
    using flag by auto
  show ?thesis using obs fl waits pre [unfolded preceded_def] stores frame by blast
qed

theorem wait_returns_when_free_witness:
  "run_env (replicate 20 (\<lparr>lock = 1, wait = 0\<rparr>, 0) @
       [(\<lparr>lock = 1, wait = 0\<rparr>, 0), (\<lparr>lock = 1, wait = 1\<rparr>, 0), (\<lparr>lock = 0, wait = 1\<rparr>, 0)])
     (enter_wait idle) =
     (\<lparr>pc = WRet, count = 0, old_c = 0, did_futex = 1, wait_i = 0, ret = 1\<rparr>,
      replicate 20 Pause @ [Store WaitAddr 1, FutexWait WaitAddr 1])
   \<and> lock (apply_events (replicate 20 Pause @ [Store WaitAddr 1, FutexWait WaitAddr 1])
        \<lparr>lock = 1, wait = 0\<rparr>) = 1
   \<and> run_env [(\<lparr>lock = 0, wait = 0\<rparr>, 0)] (enter_wait idle) =
     (\<lparr>pc = WRet, count = 0, old_c = 0, did_futex = 0, wait_i = 0, ret = 0\<rparr>, [])"
proof -
  let ?envs = "replicate 20 (\<lparr>lock = 1, wait = 0\<rparr>, 0::int) @
       [(\<lparr>lock = 1, wait = 0\<rparr>, 0), (\<lparr>lock = 1, wait = 1\<rparr>, 0), (\<lparr>lock = 0, wait = 1\<rparr>, 0)]"
  let ?l = "\<lparr>pc = WRet, count = 0, old_c = 0, did_futex = 1, wait_i = 0, ret = 1\<rparr>"
  let ?es = "replicate 20 Pause @ [Store WaitAddr 1, FutexWait WaitAddr 1]"
  have r1: "run_env ?envs (enter_wait idle) = (?l, ?es)"
    by (simp add: run_defs eval_nat_numeral)
  let ?l2 = "\<lparr>pc = WRet, count = 0, old_c = 0, did_futex = 0, wait_i = 0, ret = 0\<rparr>"
  have r2: "run_env [(\<lparr>lock = 0, wait = 0\<rparr>, 0)] (enter_wait idle) = (?l2, [])"
    by (simp add: run_defs)
  have "lock (apply_events ?es \<lparr>lock = 1, wait = 0\<rparr>) = 1"
    using wait_returns_when_free [OF r1] by simp
  then show ?thesis using r1 wait_returns_when_free [OF r2] r2 by simp
qed

text \<open>
  C9. A step does not depend on what the kernel returns, and neither does a run. After
  the kernel wait of Acquire the thread is back at the read of line 54, which reads
  \<^verbatim>\<open>lock\<close> anew and tests bit 0; after the kernel wait of WaitForFree it is back at the
  check of line 90 with the loop counter at 0. What Acquire and WaitForFree return is 0
  or 1, never an error code.
\<close>

theorem kernel_results_ignored:
  "thread_step m r l = thread_step m r' l
   \<and> (map fst envs = map fst envs' \<longrightarrow> run_env envs l = run_env envs' l)
   \<and> (pc l = LFutex \<longrightarrow>
        thread_step m r l = (l\<lparr>pc := LSlow, did_futex := 1\<rparr>, [FutexWait LockAddr (old_c l)]))
   \<and> (pc l = LSlow \<longrightarrow>
        thread_step m r l =
          (l\<lparr>old_c := lock m, pc := (if lock m AND 1 = 1 then LFutex else LCas2)\<rparr>, []))
   \<and> (pc l = WFutex \<longrightarrow>
        thread_step m r l = (l\<lparr>did_futex := 1, wait_i := 0, pc := WCheck\<rparr>, [FutexWait WaitAddr 1]))
   \<and> (pc (fst (run_env envs (enter_lock l))) = LRet \<longrightarrow>
        ret (fst (run_env envs (enter_lock l))) \<in> {0, 1})
   \<and> (pc (fst (run_env envs (enter_wait l))) = WRet \<longrightarrow>
        ret (fst (run_env envs (enter_wait l))) \<in> {0, 1})"
proof -
  have "wait_inv (fst (run_env envs (enter_wait l))) (run_pcs envs (enter_wait l))
     (snd (run_env envs (enter_wait l)))" by (rule wait_run_inv)
  then have w: "pc (fst (run_env envs (enter_wait l))) = WRet \<longrightarrow>
        ret (fst (run_env envs (enter_wait l))) \<in> {0, 1}"
    unfolding wait_inv_def by auto
  have "lock_inv (fst (run_env envs (enter_lock l))) (run_pcs envs (enter_lock l))
     (snd (run_env envs (enter_lock l)))" by (rule lock_run_inv)
  then have "pc (fst (run_env envs (enter_lock l))) = LRet \<longrightarrow>
        ret (fst (run_env envs (enter_lock l))) \<in> {0, 1}"
    unfolding lock_inv_def by auto
  moreover have "thread_step m r l = thread_step m r' l" by (simp add: step_defs)
  moreover have "map fst envs = map fst envs' \<longrightarrow> run_env envs l = run_env envs' l"
    using run_env_kret by blast
  moreover have "pc l = LFutex \<longrightarrow>
        thread_step m r l = (l\<lparr>pc := LSlow, did_futex := 1\<rparr>, [FutexWait LockAddr (old_c l)])"
    by (simp add: step_defs futex_wait_def)
  moreover have "pc l = LSlow \<longrightarrow>
        thread_step m r l =
          (l\<lparr>old_c := lock m, pc := (if lock m AND 1 = 1 then LFutex else LCas2)\<rparr>, [])"
    by (simp add: step_defs Let_def)
  moreover have "pc l = WFutex \<longrightarrow>
        thread_step m r l = (l\<lparr>did_futex := 1, wait_i := 0, pc := WCheck\<rparr>, [FutexWait WaitAddr 1])"
    by (simp add: step_defs futex_wait_def wait_loop_head_def sless_spin)
  ultimately show ?thesis using w by blast
qed

theorem kernel_results_ignored_witness:
  "thread_step \<lparr>lock = 3, wait = 0\<rparr> 0
       \<lparr>pc = LFutex, count = 20, old_c = 3, did_futex = 0, wait_i = 0, ret = 0\<rparr> =
     thread_step \<lparr>lock = 3, wait = 0\<rparr> (- 4)
       \<lparr>pc = LFutex, count = 20, old_c = 3, did_futex = 0, wait_i = 0, ret = 0\<rparr>
   \<and> thread_step \<lparr>lock = 3, wait = 0\<rparr> (- 11)
       \<lparr>pc = LFutex, count = 20, old_c = 3, did_futex = 0, wait_i = 0, ret = 0\<rparr> =
     (\<lparr>pc = LSlow, count = 20, old_c = 3, did_futex = 1, wait_i = 0, ret = 0\<rparr>,
      [FutexWait LockAddr 3])
   \<and> thread_step \<lparr>lock = 2, wait = 0\<rparr> 0
       \<lparr>pc = LSlow, count = 20, old_c = 3, did_futex = 1, wait_i = 0, ret = 0\<rparr> =
     (\<lparr>pc = LCas2, count = 20, old_c = 2, did_futex = 1, wait_i = 0, ret = 0\<rparr>, [])
   \<and> thread_step \<lparr>lock = 1, wait = 1\<rparr> (- 4)
       \<lparr>pc = WFutex, count = 0, old_c = 0, did_futex = 0, wait_i = 20, ret = 0\<rparr> =
     (\<lparr>pc = WCheck, count = 0, old_c = 0, did_futex = 1, wait_i = 0, ret = 0\<rparr>,
      [FutexWait WaitAddr 1])
   \<and> run_env [(zero_mutex, 0), (zero_mutex, 0)] (enter_lock idle) =
     run_env [(zero_mutex, - 4), (zero_mutex, - 11)] (enter_lock idle)"
proof -
  let ?m3 = "\<lparr>lock = 3, wait = 0\<rparr>"
  let ?lf = "\<lparr>pc = LFutex, count = 20, old_c = 3, did_futex = 0, wait_i = 0, ret = 0\<rparr>"
  let ?ls = "\<lparr>pc = LSlow, count = 20, old_c = 3, did_futex = 1, wait_i = 0, ret = 0\<rparr>"
  let ?lw = "\<lparr>pc = WFutex, count = 0, old_c = 0, did_futex = 0, wait_i = 20, ret = 0\<rparr>"
  have a: "thread_step ?m3 0 ?lf = thread_step ?m3 (- 4) ?lf"
    using kernel_results_ignored [of ?m3 0 ?lf "- 4"] by blast
  have b: "thread_step ?m3 (- 11) ?lf = (?ls, [FutexWait LockAddr 3])"
    using kernel_results_ignored [of ?m3 "- 11" ?lf] by simp
  have c: "thread_step \<lparr>lock = 2, wait = 0\<rparr> 0 ?ls =
      (\<lparr>pc = LCas2, count = 20, old_c = 2, did_futex = 1, wait_i = 0, ret = 0\<rparr>, [])"
    using kernel_results_ignored [of "\<lparr>lock = 2, wait = 0\<rparr>" 0 ?ls] by simp
  have d: "thread_step \<lparr>lock = 1, wait = 1\<rparr> (- 4) ?lw =
      (\<lparr>pc = WCheck, count = 0, old_c = 0, did_futex = 1, wait_i = 0, ret = 0\<rparr>,
       [FutexWait WaitAddr 1])"
    using kernel_results_ignored [of "\<lparr>lock = 1, wait = 1\<rparr>" "- 4" ?lw] by simp
  have e: "run_env [(zero_mutex, 0), (zero_mutex, 0)] (enter_lock idle) =
      run_env [(zero_mutex, - 4), (zero_mutex, - 11)] (enter_lock idle)"
    using kernel_results_ignored [of _ _ "enter_lock idle" _ "[(zero_mutex, 0), (zero_mutex, 0)]"
        "[(zero_mutex, - 4), (zero_mutex, - 11)]"]
    by simp
  show ?thesis using a b c d e by blast
qed

section \<open>Mutual exclusion\<close>

lemma apply_events_simps [simp]:
  "apply_events [Store LockAddr v] m = m\<lparr>lock := v\<rparr>"
  "apply_events [Store WaitAddr v] m = m\<lparr>wait := v\<rparr>"
  "apply_events [Pause] m = m"
  "apply_events [FutexWait a v] m = m"
  "apply_events [FutexWake a n] m = m"
  by simp_all

lemma thread_step_cases:
  assumes "thread_step m r l = (l', es)" and "pc l \<in> {LCas1, LCas2} \<longrightarrow> even (old_c l)"
  shows "(pc l' \<in> {LCas1, LCas2} \<longrightarrow> even (old_c l')) \<and>
     ((even (lock (apply_events es m)) = even (lock m) \<and> (pc l' = LRet \<longleftrightarrow> pc l = LRet)
          \<and> (pc l' = UDec \<longleftrightarrow> pc l = UDec))
      \<or> (even (lock m) \<and> odd (lock (apply_events es m)) \<and> pc l' = LRet \<and> pc l \<noteq> LRet \<and> pc l \<noteq> UDec)
      \<or> (pc l = UDec \<and> pc l' \<noteq> UDec \<and> pc l' \<noteq> LRet \<and> lock (apply_events es m) = lock m - 1))"
  using assms
  by (cases "pc l")
    (auto simp add: step_defs lock_loop_head_def wait_loop_head_def Let_def bit0_odd
      futex_wait_def futex_wake1_def futex_wakeN_def split: if_splits)

lemma inv_update:
  assumes inv: "sys_inv s"
    and m: "mtx s' = m'" and th: "thr s' = (thr s)(t := l')" and ho: "holds s' = (holds s)(t := h')"
    and cas: "pc l' \<in> {LCas1, LCas2} \<longrightarrow> even (old_c l')"
    and udec: "pc l' = UDec \<longrightarrow> \<not> h'"
    and eff: "((h' \<or> pc l' = LRet \<or> pc l' = UDec) = owner s t \<and> even (lock m') = even (lock (mtx s)))
       \<or> (even (lock (mtx s)) \<and> odd (lock m') \<and> (h' \<or> pc l' = LRet \<or> pc l' = UDec))
       \<or> (owner s t \<and> \<not> (h' \<or> pc l' = LRet \<or> pc l' = UDec) \<and> lock m' = lock (mtx s) - 1)"
  shows "sys_inv s'"
proof -
  have ow: "owner s' u = (if u = t then (h' \<or> pc l' = LRet \<or> pc l' = UDec) else owner s u)" for u
    by (simp add: th ho owner_def)
  from inv have i1: "odd (lock (mtx s)) \<longleftrightarrow> (\<exists>t. owner s t)"
    and i2: "\<And>t t'. owner s t \<Longrightarrow> owner s t' \<Longrightarrow> t = t'"
    and i3: "\<And>t. pc (thr s t) \<in> {LCas1, LCas2} \<Longrightarrow> even (old_c (thr s t))"
    and i4: "\<And>t. pc (thr s t) = UDec \<Longrightarrow> \<not> holds s t"
    by (auto simp add: sys_inv_def)
  have j3: "\<forall>u. pc (thr s' u) \<in> {LCas1, LCas2} \<longrightarrow> even (old_c (thr s' u))"
    using cas i3 by (simp add: th)
  have j4: "\<forall>u. pc (thr s' u) = UDec \<longrightarrow> \<not> holds s' u"
    using udec i4 by (simp add: th ho)
  have j2: "\<forall>u u'. owner s' u \<longrightarrow> owner s' u' \<longrightarrow> u = u'"
    using eff i1 i2 unfolding ow by metis
  have j1: "odd (lock (mtx s')) \<longleftrightarrow> (\<exists>u. owner s' u)"
    using eff i1 i2 unfolding ow m by (metis even_diff even_add odd_one)
  show ?thesis unfolding sys_inv_def using j1 j2 j3 j4 by blast
qed

lemma sys_inv_init: "sys_inv sys_init"
  by (simp add: sys_inv_def owner_def sys_init_def idle_def zero_mutex_def)

lemma sys_inv_call:
  assumes inv: "sys_inv s" and st: "sys_step (Call t c) s = Some s'"
  shows "sys_inv s'"
proof -
  from st have idle: "pc (thr s t) = Idle" by (simp split: if_splits)
  show ?thesis
  proof (cases c)
    case CallLock
    with st idle have s': "s' = s\<lparr>thr := (thr s)(t := enter_lock (thr s t))\<rparr>" by simp
    show ?thesis
      by (rule inv_update [OF inv, where t = t and l' = "enter_lock (thr s t)"
            and h' = "holds s t" and m' = "mtx s"])
        (use idle in \<open>auto simp add: s' enter_lock_def lock_loop_head_def owner_def\<close>)
  next
    case CallUnlock
    with st idle have h: "holds s t"
      and s': "s' = s\<lparr>thr := (thr s)(t := enter_unlock (thr s t)),
        holds := (holds s)(t := False)\<rparr>" by (simp_all split: if_splits)
    show ?thesis
      by (rule inv_update [OF inv, where t = t and l' = "enter_unlock (thr s t)"
            and h' = False and m' = "mtx s"])
        (use idle h in \<open>auto simp add: s' enter_unlock_def owner_def\<close>)
  next
    case CallSubscribe
    with st idle have s': "s' = s\<lparr>thr := (thr s)(t := enter_subscribe (thr s t))\<rparr>" by simp
    show ?thesis
      by (rule inv_update [OF inv, where t = t and l' = "enter_subscribe (thr s t)"
            and h' = "holds s t" and m' = "mtx s"])
        (use idle in \<open>auto simp add: s' enter_subscribe_def owner_def\<close>)
  next
    case CallWait
    with st idle have s': "s' = s\<lparr>thr := (thr s)(t := enter_wait (thr s t))\<rparr>" by simp
    show ?thesis
      by (rule inv_update [OF inv, where t = t and l' = "enter_wait (thr s t)"
            and h' = "holds s t" and m' = "mtx s"])
        (use idle in \<open>auto simp add: s' enter_wait_def wait_loop_head_def owner_def\<close>)
  qed
qed

lemma sys_inv_return:
  assumes inv: "sys_inv s" and st: "sys_step (Return t) s = Some s'"
  shows "sys_inv s'"
proof (cases "pc (thr s t) = LRet")
  case True
  with st have s': "s' = s\<lparr>thr := (thr s)(t := (thr s t)\<lparr>pc := Idle\<rparr>),
        holds := (holds s)(t := True)\<rparr>" by simp
  show ?thesis
    by (rule inv_update [OF inv, where t = t and l' = "(thr s t)\<lparr>pc := Idle\<rparr>"
          and h' = True and m' = "mtx s"])
      (use True in \<open>auto simp add: s' owner_def\<close>)
next
  case False
  with st have p: "pc (thr s t) \<in> {URet, SRet, WRet}"
    and s': "s' = s\<lparr>thr := (thr s)(t := (thr s t)\<lparr>pc := Idle\<rparr>)\<rparr>"
    by (simp_all split: if_splits)
  show ?thesis
    by (rule inv_update [OF inv, where t = t and l' = "(thr s t)\<lparr>pc := Idle\<rparr>"
          and h' = "holds s t" and m' = "mtx s"])
      (use p in \<open>auto simp add: s' owner_def\<close>)
qed

lemma sys_inv_thread_step:
  assumes inv: "sys_inv s" and st: "sys_step (Step t r) s = Some s'"
  shows "sys_inv s'"
proof -
  obtain l' es where ts: "thread_step (mtx s) r (thr s t) = (l', es)" by force
  with st have s': "s' = s\<lparr>mtx := apply_events es (mtx s), thr := (thr s)(t := l')\<rparr>" by simp
  from inv have cas: "pc (thr s t) \<in> {LCas1, LCas2} \<longrightarrow> even (old_c (thr s t))"
    and nh: "pc (thr s t) = UDec \<longrightarrow> \<not> holds s t"
    by (auto simp add: sys_inv_def)
  note c = thread_step_cases [OF ts cas]
  show ?thesis
  proof (rule inv_update [OF inv, where t = t and l' = l' and h' = "holds s t"
          and m' = "apply_events es (mtx s)"])
    show "mtx s' = apply_events es (mtx s)" by (simp add: s')
    show "thr s' = (thr s)(t := l')" by (simp add: s')
    show "holds s' = (holds s)(t := holds s t)" by (simp add: s')
    show "pc l' \<in> {LCas1, LCas2} \<longrightarrow> even (old_c l')" using c by blast
    show "pc l' = UDec \<longrightarrow> \<not> holds s t" using c nh by auto
    show "((holds s t \<or> pc l' = LRet \<or> pc l' = UDec) = owner s t \<and>
       even (lock (apply_events es (mtx s))) = even (lock (mtx s))) \<or>
      (even (lock (mtx s)) \<and> odd (lock (apply_events es (mtx s))) \<and> (holds s t \<or> pc l' = LRet \<or> pc l' = UDec)) \<or>
      (owner s t \<and> \<not> (holds s t \<or> pc l' = LRet \<or> pc l' = UDec) \<and>
       lock (apply_events es (mtx s)) = lock (mtx s) - 1)"
      using c nh unfolding owner_def by auto
  qed
qed

lemma sys_inv_step: "sys_inv s \<Longrightarrow> sys_step a s = Some s' \<Longrightarrow> sys_inv s'"
  by (cases a) (blast intro: sys_inv_call sys_inv_thread_step sys_inv_return)+

lemma sys_inv_exec: "sys_inv s \<Longrightarrow> exec sched s = Some s' \<Longrightarrow> sys_inv s'"
  by (induction sched arbitrary: s) (auto split: option.splits dest: sys_inv_step)

text \<open>
  C1. Mutual exclusion: in every state that threads calling the four operations can
  reach from the zero-initialised mutex, under any schedule, at most one thread holds the
  mutex (is between its return from Acquire and its next call of Release).
\<close>

theorem mutual_exclusion:
  assumes "exec sched sys_init = Some s" and "holds s t" and "holds s t'"
  shows "t = t'"
proof -
  have "sys_inv s" using sys_inv_init assms(1) by (rule sys_inv_exec)
  then have "\<And>t t'. owner s t \<Longrightarrow> owner s t' \<Longrightarrow> t = t'" by (simp add: sys_inv_def)
  then show ?thesis using assms(2,3) by (simp add: owner_def)
qed

theorem mutual_exclusion_witness:
  "\<exists>s. exec [Call 0 CallLock, Call 1 CallLock, Step 0 0, Step 1 0, Step 0 0, Step 1 0,
            Return 0, Step 1 0] sys_init = Some s
       \<and> holds s 0 \<and> pc (thr s 1) = LRead \<and> (\<forall>t. holds s t \<longrightarrow> t = 0)"
proof -
  obtain s where e: "exec [Call 0 CallLock, Call 1 CallLock, Step 0 0, Step 1 0, Step 0 0,
      Step 1 0, Return 0, Step 1 0] sys_init = Some s"
    and h: "holds s 0" and p: "pc (thr s 1) = LRead"
    by (simp add: sys_init_def run_defs)
  have "\<forall>t. holds s t \<longrightarrow> t = 0" using mutual_exclusion [OF e _ h] by blast
  with e h p show ?thesis by blast
qed

end
